theory Spec2Isabelle
  imports Main
begin

section \<open>Strings as the extension sees them\<close>

text \<open>
  A JavaScript string is modelled as a \<open>string\<close> whose characters are the code units
  of the Latin-1 range (0 to 255); every function below works character by character,
  as the source does. \<open>dquote\<close> is the double-quote character.
\<close>

abbreviation dquote :: char where
  "dquote \<equiv> CHR 0x22"

text \<open>
  The characters that \<open>String.prototype.trim\<close> strips and that the class \<open>\s\<close> of a
  regular expression matches, as far as they lie in the modelled range: tab, line feed,
  vertical tab, form feed, carriage return, space and the no-break space.
\<close>

definition isWhiteSpace :: "char \<Rightarrow> bool" where
  "isWhiteSpace c \<longleftrightarrow>
     c = CHR 0x09 \<or> c = CHR 0x0A \<or> c = CHR 0x0B \<or> c = CHR 0x0C \<or> c = CHR 0x0D \<or>
     c = CHR 0x20 \<or> c = CHR 0xA0"

definition trim :: "string \<Rightarrow> string" where
  "trim s = rev (dropWhile isWhiteSpace (rev (dropWhile isWhiteSpace s)))"

text \<open>
  \<open>toLowerCase\<close> on the modelled range: the letters A to Z and the Latin-1 capitals
  (0xC0 to 0xDE without the multiplication sign 0xD7) move up by 0x20.
\<close>

definition lowerChar :: "char \<Rightarrow> char" where
  "lowerChar c =
     (let n = (of_char c :: nat)
      in if (65 \<le> n \<and> n \<le> 90) \<or> (192 \<le> n \<and> n \<le> 222 \<and> n \<noteq> 215)
         then char_of (n + 32) else c)"

definition toLowerCase :: "string \<Rightarrow> string" where
  "toLowerCase s = map lowerChar s"

section \<open>The address pattern of \<open>parseEmailAddress\<close>\<close>

text \<open>
  The source matches \<^verbatim>\<open>/^(?:"?([^"]*)"?\s)?<?([^>]+@[^>]+)>?$/\<close> against the raw string.
  A backtracking matcher tries its choices in a fixed order (a greedy \<open>?\<close> takes the
  character first and skips it second, a greedy repetition tries the longest run first)
  and returns the first way through that reaches the end. The model lists every way
  through in that order; the match is the head of the list.
\<close>

definition optChar :: "char \<Rightarrow> string \<Rightarrow> string list" where
  "optChar c s = (case s of [] \<Rightarrow> [s] | x # xs \<Rightarrow> if x = c then [xs, s] else [s])"

definition greedyClass :: "(char \<Rightarrow> bool) \<Rightarrow> nat \<Rightarrow> string \<Rightarrow> (string \<times> string) list" where
  "greedyClass P m s =
     map (\<lambda>n. (take n s, drop n s)) (rev [m ..< Suc (length (takeWhile P s))])"

definition notGt :: "char \<Rightarrow> bool" where
  "notGt c \<longleftrightarrow> c \<noteq> CHR ''>''"

definition notQuote :: "char \<Rightarrow> bool" where
  "notQuote c \<longleftrightarrow> c \<noteq> dquote"

text \<open>\<^verbatim>\<open>>?$\<close>: the candidate second group \<open>e\<close> is a match when what follows it ends the input.\<close>

definition closeAngle :: "string \<Rightarrow> string \<Rightarrow> string list" where
  "closeAngle e s = List.bind (optChar CHR ''>'' s) (\<lambda>r. if r = [] then [e] else [])"

text \<open>
  \<^verbatim>\<open>@[^>]+>?$\<close> after the first run \<open>a\<close> of the second group, and
  \<^verbatim>\<open>([^>]+@[^>]+)>?$\<close>: the values of the second group, in the matcher's order.
\<close>

definition afterLocal :: "string \<Rightarrow> string \<Rightarrow> string list" where
  "afterLocal a s2 =
     (case s2 of
        [] \<Rightarrow> []
      | x # s3 \<Rightarrow>
          if x = CHR ''@''
          then List.bind (greedyClass notGt 1 s3) (\<lambda>(b, s4). closeAngle (a @ CHR ''@'' # b) s4)
          else [])"

definition angleBody :: "string \<Rightarrow> string list" where
  "angleBody s = List.bind (greedyClass notGt 1 s) (\<lambda>(a, s2). afterLocal a s2)"

text \<open>\<^verbatim>\<open><?([^>]+@[^>]+)>?$\<close>\<close>

definition matchAngle :: "string \<Rightarrow> string list" where
  "matchAngle s = List.bind (optChar CHR ''<'' s) angleBody"

text \<open>
  The optional group \<^verbatim>\<open>(?:"?([^"]*)"?\s)?\<close> followed by the rest of the pattern: every
  way through that takes the group, with the first group's text.
\<close>

definition afterName :: "string \<Rightarrow> string \<Rightarrow> (string option \<times> string) list" where
  "afterName n s =
     (case s of
        [] \<Rightarrow> []
      | w # s4 \<Rightarrow> if isWhiteSpace w then map (\<lambda>e. (Some n, e)) (matchAngle s4) else [])"

definition withName :: "string \<Rightarrow> (string option \<times> string) list" where
  "withName raw =
     List.bind (optChar dquote raw) (\<lambda>s1.
       List.bind (greedyClass notQuote 0 s1) (\<lambda>(n, s2).
         List.bind (optChar dquote s2) (afterName n)))"

text \<open>
  All matches of the whole pattern: the group is tried first; when no way through takes
  it, the group is skipped and its capture stays undefined (\<open>None\<close>).
\<close>

definition matchAddress :: "string \<Rightarrow> (string option \<times> string) list" where
  "matchAddress raw = withName raw @ map (\<lambda>e. (None, e)) (matchAngle raw)"

definition regexMatch :: "string \<Rightarrow> (string option \<times> string) option" where
  "regexMatch raw = (case matchAddress raw of [] \<Rightarrow> None | m # _ \<Rightarrow> Some m)"

section \<open>Parsing address headers\<close>

text \<open>
  \<open>EmailAddress\<close> has a required \<open>email\<close> and an optional \<open>name\<close>. A \<open>name\<close> that is
  absent and a \<open>name\<close> that is \<open>undefined\<close> are both \<open>None\<close>.
\<close>

record EmailAddress =
  email :: string
  name :: "string option"

text \<open>\<open>x || undefined\<close> on a string: the empty string is falsy.\<close>

definition orUndefined :: "string \<Rightarrow> string option" where
  "orUndefined s = (if s = [] then None else Some s)"

definition parseEmailAddress :: "string \<Rightarrow> EmailAddress" where
  "parseEmailAddress raw =
     (case regexMatch raw of
        Some (m1, m2) \<Rightarrow>
          \<lparr>email = toLowerCase (trim m2),
           name = (case m1 of None \<Rightarrow> None | Some n \<Rightarrow> orUndefined (trim n))\<rparr>
      | None \<Rightarrow> \<lparr>email = toLowerCase (trim raw), name = None\<rparr>)"

text \<open>
  The loop of \<open>parseEmailAddresses\<close>: its state is \<open>addresses\<close>, \<open>current\<close> and
  \<open>inQuotes\<close>; one step handles one character.
\<close>

type_synonym split_state = "string list \<times> string \<times> bool"

definition pushCurrent :: "string list \<Rightarrow> string \<Rightarrow> string list" where
  "pushCurrent addresses current =
     (if trim current \<noteq> [] then addresses @ [trim current] else addresses)"

fun splitStep :: "split_state \<Rightarrow> char \<Rightarrow> split_state" where
  "splitStep (addresses, current, inQuotes) ch =
     (let inQuotes' = (if ch = dquote then \<not> inQuotes else inQuotes)
      in if ch = CHR '','' \<and> \<not> inQuotes'
         then (pushCurrent addresses current, [], inQuotes')
         else (addresses, current @ [ch], inQuotes'))"

definition splitAddresses :: "string \<Rightarrow> string list" where
  "splitAddresses raw =
     (case foldl splitStep ([], [], False) raw of
        (addresses, current, inQuotes) \<Rightarrow> pushCurrent addresses current)"

definition parseEmailAddresses :: "string \<Rightarrow> EmailAddress list" where
  "parseEmailAddresses raw =
     (if raw = [] then [] else map parseEmailAddress (splitAddresses raw))"

text \<open>
  What the claims mean by a comma outside double quotes: position \<open>i\<close> of the header
  holds a comma and an even number of double quotes comes before it.
\<close>

definition commaOutside :: "string \<Rightarrow> nat \<Rightarrow> bool" where
  "commaOutside raw i \<longleftrightarrow>
     i < length raw \<and> raw ! i = CHR '','' \<and> even (count_list (take i raw) dquote)"

definition numCommasOutside :: "string \<Rightarrow> nat" where
  "numCommasOutside raw = length (filter (commaOutside raw) [0 ..< length raw])"

section \<open>Exceptions, JSON and HTTP\<close>

text \<open>
  A function that can throw returns \<open>js_error + 'a\<close>, with \<open>Inl\<close> for the exception; an
  \<open>async\<close> function that rejects is modelled the same way. \<open>tryCatch\<close> is a
  \<open>try { ... } catch { ... }\<close> block.
\<close>

datatype js_error = Error string | TypeError string | SyntaxError string

type_synonym 'a result = "js_error + 'a"

definition tryCatch :: "'a result \<Rightarrow> (js_error \<Rightarrow> 'a result) \<Rightarrow> 'a result" where
  "tryCatch block handler = (case block of Inl e \<Rightarrow> handler e | Inr v \<Rightarrow> Inr v)"

definition andThen :: "'a result \<Rightarrow> ('a \<Rightarrow> 'b result) \<Rightarrow> 'b result" where
  "andThen r f = (case r of Inl e \<Rightarrow> Inl e | Inr v \<Rightarrow> f v)"

text \<open>
  A parsed JSON value; the fields of an object are listed with distinct keys. A
  JavaScript value read from one is a JSON value or \<open>undefined\<close>.
\<close>

datatype json =
    JNull
  | JBool bool
  | JNumber int
  | JString string
  | JArray "json list"
  | JObject "(string \<times> json) list"

datatype js_value = JsUndefined | JsJson json

text \<open>
  The \<open>fetch\<close> of the platform is an input of the model: it maps a request to a rejection
  (a transport error) or to a response. \<open>textBody\<close> and \<open>jsonBody\<close> are what
  \<open>response.text()\<close> and \<open>response.json()\<close> resolve to, \<open>None\<close> when they reject.
\<close>

record http_request =
  reqMethod :: string
  reqUrl :: string
  reqHeaders :: "string \<rightharpoonup> string"
  reqBody :: "string option"

record http_response =
  status :: nat
  textBody :: "string option"
  jsonBody :: "json option"

datatype fetch_outcome = Rejected js_error | Responded http_response

type_synonym network = "http_request \<Rightarrow> fetch_outcome"

text \<open>\<open>response.ok\<close>: the status is in the range 200 to 299.\<close>

definition ok :: "http_response \<Rightarrow> bool" where
  "ok r \<longleftrightarrow> 200 \<le> status r \<and> status r \<le> 299"

text \<open>Decimal rendering of a number inside a template literal.\<close>

definition digitChar :: "nat \<Rightarrow> char" where
  "digitChar d = char_of (48 + d)"

fun showNat :: "nat \<Rightarrow> string" where
  "showNat n = (if n < 10 then [digitChar n] else showNat (n div 10) @ [digitChar (n mod 10)])"

declare showNat.simps [simp del]

text \<open>
  \<open>encodeURIComponent\<close> on the modelled range: letters, digits and \<^verbatim>\<open>-_.!~*'()\<close> stay,
  every other character becomes the percent-encoded bytes of its UTF-8 form.
\<close>

definition hexDigit :: "nat \<Rightarrow> char" where
  "hexDigit d = (if d < 10 then char_of (48 + d) else char_of (55 + d))"

definition percentByte :: "nat \<Rightarrow> string" where
  "percentByte b = [CHR ''%'', hexDigit (b div 16), hexDigit (b mod 16)]"

definition uriUnreserved :: "char \<Rightarrow> bool" where
  "uriUnreserved c \<longleftrightarrow>
     (let n = (of_char c :: nat)
      in (65 \<le> n \<and> n \<le> 90) \<or> (97 \<le> n \<and> n \<le> 122) \<or> (48 \<le> n \<and> n \<le> 57)
         \<or> c \<in> set ''-_.!~*()'' \<or> c = CHR 0x27)"

definition encodeChar :: "char \<Rightarrow> string" where
  "encodeChar c =
     (let n = (of_char c :: nat)
      in if uriUnreserved c then [c]
         else if n < 128 then percentByte n
         else percentByte (192 + n div 64) @ percentByte (128 + n mod 64))"

definition encodeURIComponent :: "string \<Rightarrow> string" where
  "encodeURIComponent s = concat (map encodeChar s)"

section \<open>The BizDash API client\<close>

text \<open>
  The client that sends its requests with \<open>fetch\<close>. (The repository also holds an earlier
  placeholder of the same file, whose \<open>apiRequest\<close> returns canned data and sends
  nothing.) Its two module variables are the configuration below.
\<close>

record api_config =
  apiBaseUrl :: string
  authToken :: "string option"

text \<open>\<open>token || null\<close>: an absent or empty token is no token.\<close>

definition configureApi :: "string \<Rightarrow> string option \<Rightarrow> api_config" where
  "configureApi baseUrl token =
     \<lparr>apiBaseUrl = baseUrl,
      authToken = (case token of None \<Rightarrow> None | Some t \<Rightarrow> if t = [] then None else Some t)\<rparr>"

definition authHeader :: "api_config \<Rightarrow> (string \<rightharpoonup> string)" where
  "authHeader cfg =
     (case authToken cfg of
        None \<Rightarrow> Map.empty
      | Some t \<Rightarrow> [''Authorization'' \<mapsto> ''Bearer '' @ t])"

text \<open>The \<open>RequestInit\<close> options that the client passes: method, body and headers.\<close>

record request_init =
  initMethod :: "string option"
  initBody :: "string option"
  initHeaders :: "string \<rightharpoonup> string"

definition noInit :: request_init where
  "noInit = \<lparr>initMethod = None, initBody = None, initHeaders = Map.empty\<rparr>"

definition apiRequestOf :: "api_config \<Rightarrow> string \<Rightarrow> request_init \<Rightarrow> http_request" where
  "apiRequestOf cfg endpoint options =
     \<lparr>reqMethod = (case initMethod options of None \<Rightarrow> ''GET'' | Some m \<Rightarrow> m),
      reqUrl = apiBaseUrl cfg @ endpoint,
      reqHeaders = [''Content-Type'' \<mapsto> ''application/json''] ++ authHeader cfg ++ initHeaders options,
      reqBody = initBody options\<rparr>"

definition apiRequest :: "network \<Rightarrow> api_config \<Rightarrow> string \<Rightarrow> request_init \<Rightarrow> json result" where
  "apiRequest net cfg endpoint options =
     (case net (apiRequestOf cfg endpoint options) of
        Rejected e \<Rightarrow> Inl e
      | Responded response \<Rightarrow>
          if \<not> ok response
          then (let errorText = (case textBody response of None \<Rightarrow> ''Unknown error'' | Some t \<Rightarrow> t)
                in Inl (Error (''BizDash API error '' @ showNat (status response) @ '': '' @ errorText)))
          else (case jsonBody response of
                  None \<Rightarrow> Inl (SyntaxError ''Unexpected token'')
                | Some v \<Rightarrow> Inr v))"

text \<open>
  \<open>result.exists\<close>: reading the property of \<open>null\<close> throws; an object gives the field or
  \<open>undefined\<close>; numbers, strings, booleans and arrays have no such property.
\<close>

definition getExists :: "json \<Rightarrow> js_value result" where
  "getExists v =
     (case v of
        JNull \<Rightarrow> Inl (TypeError ''Cannot read properties of null'')
      | JObject props \<Rightarrow>
          Inr (case map_of props ''exists'' of None \<Rightarrow> JsUndefined | Some x \<Rightarrow> JsJson x)
      | _ \<Rightarrow> Inr JsUndefined)"

definition checkEndpoint :: "string \<Rightarrow> string" where
  "checkEndpoint gmailMessageId =
     ''/api/v1/crm/emails/check?gmail_message_id='' @ encodeURIComponent gmailMessageId"

definition isEmailLogged :: "network \<Rightarrow> api_config \<Rightarrow> string \<Rightarrow> js_value result" where
  "isEmailLogged net cfg gmailMessageId =
     tryCatch
       (andThen (apiRequest net cfg (checkEndpoint gmailMessageId) noInit) getExists)
       (\<lambda>_. Inr (JsJson (JBool False)))"

definition healthRequest :: "api_config \<Rightarrow> http_request" where
  "healthRequest cfg =
     \<lparr>reqMethod = ''GET'', reqUrl = apiBaseUrl cfg @ ''/health'',
      reqHeaders = authHeader cfg, reqBody = None\<rparr>"

definition healthCheck :: "network \<Rightarrow> api_config \<Rightarrow> bool result" where
  "healthCheck net cfg =
     tryCatch
       (case net (healthRequest cfg) of
          Rejected e \<Rightarrow> Inl e
        | Responded response \<Rightarrow> Inr (ok response))
       (\<lambda>error. Inr False)"

text \<open>A request has failed when \<open>fetch\<close> rejected or the response is not a 2xx one.\<close>

definition requestFailed :: "fetch_outcome \<Rightarrow> bool" where
  "requestFailed outcome = (case outcome of Rejected e \<Rightarrow> True | Responded response \<Rightarrow> \<not> ok response)"

section \<open>The auth manager\<close>

record GoogleAuthToken =
  accessToken :: string
  expiresAt :: nat
  refreshToken :: "string option"
  scope :: string

record BizDashAuth =
  apiUrl :: string
  apiKey :: "string option"
  tenantId :: string
  isAuthenticated :: bool
  userEmail :: "string option"

text \<open>\<open>AuthState\<close>: a track is \<open>null\<close> (\<open>None\<close>) or holds its credentials.\<close>

record AuthState =
  google :: "GoogleAuthToken option"
  bizdash :: "BizDashAuth option"
  isFullyAuthenticated :: bool

text \<open>
  \<open>Partial<AuthState>\<close>: every field may be absent (\<open>None\<close>); a field that is present
  holds a value of the field's type, which for a track may be \<open>null\<close> (\<open>Some None\<close>).
\<close>

record AuthStateUpdates =
  googleUpd :: "GoogleAuthToken option option"
  bizdashUpd :: "BizDashAuth option option"
  isFullyAuthenticatedUpd :: "bool option"

definition noUpdates :: AuthStateUpdates where
  "noUpdates = \<lparr>googleUpd = None, bizdashUpd = None, isFullyAuthenticatedUpd = None\<rparr>"

text \<open>An object spread \<open>{...current, ...updates}\<close>, field by field.\<close>

definition spreadField :: "'a option \<Rightarrow> 'a \<Rightarrow> 'a" where
  "spreadField upd cur = (case upd of None \<Rightarrow> cur | Some v \<Rightarrow> v)"

text \<open>
  \<open>updates.f ?? current.f\<close> on a track: the right operand is taken when the left one is
  \<open>undefined\<close> (the field is absent) and also when it is \<open>null\<close>.
\<close>

definition nullish :: "'a option option \<Rightarrow> 'a option \<Rightarrow> 'a option" where
  "nullish upd cur = (case upd of None \<Rightarrow> cur | Some None \<Rightarrow> cur | Some (Some v) \<Rightarrow> Some v)"

definition updateAuthState :: "AuthStateUpdates \<Rightarrow> AuthState \<Rightarrow> AuthState" where
  "updateAuthState updates currentAuthState =
     \<lparr>google = spreadField (googleUpd updates) (google currentAuthState),
      bizdash = spreadField (bizdashUpd updates) (bizdash currentAuthState),
      isFullyAuthenticated =
        (nullish (googleUpd updates) (google currentAuthState) \<noteq> None \<and>
         nullish (bizdashUpd updates) (bizdash currentAuthState) \<noteq> None)\<rparr>"

text \<open>
  What the auth manager owns: the auth state, the configuration of the API client and
  \<open>chrome.storage.local\<close>.
\<close>

datatype stored = StoredGoogleToken GoogleAuthToken | StoredBizDashAuth BizDashAuth

record auth_world =
  currentAuthState :: AuthState
  apiConfig :: api_config
  localStorage :: "string \<rightharpoonup> stored"

definition BIZDASH_AUTH :: string where
  "BIZDASH_AUTH = ''gmail_to_crm_bizdash_auth''"

definition GOOGLE_TOKEN :: string where
  "GOOGLE_TOKEN = ''gmail_to_crm_google_token''"

text \<open>
  \<open>saveToStorage\<close> and \<open>removeFromStorage\<close> reject when the platform reports
  \<open>chrome.runtime.lastError\<close>, an input of the model; the store is then left as it was.
\<close>

definition saveToStorage ::
  "string option \<Rightarrow> string \<Rightarrow> stored \<Rightarrow> (string \<rightharpoonup> stored) \<Rightarrow> (string \<rightharpoonup> stored) result" where
  "saveToStorage lastError key v store =
     (case lastError of Some m \<Rightarrow> Inl (Error m) | None \<Rightarrow> Inr (store(key \<mapsto> v)))"

definition removeFromStorage ::
  "string option \<Rightarrow> string \<Rightarrow> (string \<rightharpoonup> stored) \<Rightarrow> (string \<rightharpoonup> stored) result" where
  "removeFromStorage lastError key store =
     (case lastError of Some m \<Rightarrow> Inl (Error m) | None \<Rightarrow> Inr (store(key := None)))"

text \<open>
  The reachability probe at the head of \<open>authenticateBizDash\<close>, with its \<open>try\<close> block.
  (An earlier placeholder of the function has no probe and always succeeds.)
\<close>

definition probeRequest :: "string \<Rightarrow> http_request" where
  "probeRequest url =
     \<lparr>reqMethod = ''GET'', reqUrl = url @ ''/health'',
      reqHeaders = [''Content-Type'' \<mapsto> ''application/json''], reqBody = None\<rparr>"

definition cannotConnect :: "string \<Rightarrow> string" where
  "cannotConnect url = ''Cannot connect to BizDash at '' @ url @ ''. Is the server running?''"

definition verifyBizDash :: "network \<Rightarrow> string \<Rightarrow> unit result" where
  "verifyBizDash net url =
     tryCatch
       (case net (probeRequest url) of
          Rejected e \<Rightarrow> Inl e
        | Responded verifyResponse \<Rightarrow>
            if \<not> ok verifyResponse
            then Inl (Error (''BizDash not reachable: '' @ showNat (status verifyResponse)))
            else Inr ())
       (\<lambda>error. Inl (Error (cannotConnect url)))"

definition authenticateBizDash ::
  "network \<Rightarrow> string option \<Rightarrow> string \<Rightarrow> string option \<Rightarrow> auth_world
     \<Rightarrow> BizDashAuth result \<times> auth_world" where
  "authenticateBizDash net lastError url key w =
     (case verifyBizDash net url of
        Inl e \<Rightarrow> (Inl e, w)
      | Inr u \<Rightarrow>
          (let bizdashAuth =
                 \<lparr>apiUrl = url,
                  apiKey = (case key of None \<Rightarrow> None | Some k \<Rightarrow> if k = [] then None else Some k),
                  tenantId = ''default'', isAuthenticated = True, userEmail = Some ''connected''\<rparr>;
               w1 = w\<lparr>apiConfig := configureApi url (Some (case key of None \<Rightarrow> [] | Some k \<Rightarrow> k))\<rparr>
           in case saveToStorage lastError BIZDASH_AUTH (StoredBizDashAuth bizdashAuth) (localStorage w1) of
                Inl e \<Rightarrow> (Inl e, w1)
              | Inr store \<Rightarrow>
                  (Inr bizdashAuth,
                   w1\<lparr>localStorage := store,
                      currentAuthState :=
                        updateAuthState (noUpdates\<lparr>bizdashUpd := Some (Some bizdashAuth)\<rparr>)
                          (currentAuthState w1)\<rparr>)))"

text \<open>\<open>signOutBizDash\<close>: remove the stored record, then set the track to \<open>null\<close>.\<close>

definition signOutBizDash :: "string option \<Rightarrow> auth_world \<Rightarrow> unit result \<times> auth_world" where
  "signOutBizDash lastError w =
     (case removeFromStorage lastError BIZDASH_AUTH (localStorage w) of
        Inl e \<Rightarrow> (Inl e, w)
      | Inr store \<Rightarrow>
          (Inr (),
           w\<lparr>localStorage := store,
             currentAuthState :=
               updateAuthState (noUpdates\<lparr>bizdashUpd := Some None\<rparr>) (currentAuthState w)\<rparr>))"

section \<open>The settings store of the background worker\<close>

record ExtensionSettings =
  bizdashApiUrl :: string
  captureEmailBody :: bool
  autoMatchContacts :: bool
  showNotifications :: bool

text \<open>\<open>Partial<ExtensionSettings>\<close>: an absent field is \<open>None\<close>.\<close>

record SettingsUpdates =
  bizdashApiUrlUpd :: "string option"
  captureEmailBodyUpd :: "bool option"
  autoMatchContactsUpd :: "bool option"
  showNotificationsUpd :: "bool option"

definition DEFAULT_SETTINGS_VALUE :: ExtensionSettings where
  "DEFAULT_SETTINGS_VALUE =
     \<lparr>bizdashApiUrl = ''http://localhost:8000'', captureEmailBody = False,
      autoMatchContacts = True, showNotifications = True\<rparr>"

text \<open>
  The state is the value under the key \<open>settings\<close> of \<open>chrome.storage.sync\<close>, \<open>None\<close> when
  nothing was stored yet. \<open>updateSettings\<close> returns the value it resolves to and the new
  store.
\<close>

definition getSettings :: "ExtensionSettings option \<Rightarrow> ExtensionSettings" where
  "getSettings syncStore = (case syncStore of None \<Rightarrow> DEFAULT_SETTINGS_VALUE | Some s \<Rightarrow> s)"

definition updateSettings ::
  "SettingsUpdates \<Rightarrow> ExtensionSettings option \<Rightarrow> ExtensionSettings \<times> ExtensionSettings option" where
  "updateSettings updates syncStore =
     (let current = getSettings syncStore;
          updated =
            \<lparr>bizdashApiUrl = spreadField (bizdashApiUrlUpd updates) (bizdashApiUrl current),
             captureEmailBody = spreadField (captureEmailBodyUpd updates) (captureEmailBody current),
             autoMatchContacts = spreadField (autoMatchContactsUpd updates) (autoMatchContacts current),
             showNotifications = spreadField (showNotificationsUpd updates) (showNotifications current)\<rparr>
      in (updated, Some updated))"

section \<open>Extraction from the Gmail page\<close>

















text \<open>
  The request that both callers build from an extracted email before they send
  \<open>LOG_EMAIL\<close>; \<open>toISOString\<close> is the ISO 8601 rendering of a time value.
\<close>

record EmailLogRequest =
  gmailMessageId :: string
  gmailThreadId :: string
  reqSubject :: string
  fromEmail :: string
  fromName :: "string option"
  toEmails :: "string list"
  ccEmails :: "string list"
  emailDate :: string
  reqSnippet :: string
  contactId :: "string option"


section \<open>Requests and sample inputs named by the claims\<close>

text \<open>The request that \<open>isEmailLogged\<close> sends through \<open>apiRequest\<close>.\<close>

definition checkRequest :: "api_config \<Rightarrow> string \<Rightarrow> http_request" where
  "checkRequest cfg mid = apiRequestOf cfg (checkEndpoint mid) noInit"

text \<open>
  Sample inputs: a network that rejects every request, one that answers every request
  with a given status and JSON body, the client's initial configuration, the auth
  manager's initial state, an open message and an inbox row.
\<close>

definition offline :: network where
  "offline = (\<lambda>req. Rejected (TypeError ''Failed to fetch''))"

definition answering :: "nat \<Rightarrow> json \<Rightarrow> network" where
  "answering code v = (\<lambda>req. Responded \<lparr>status = code, textBody = None, jsonBody = Some v\<rparr>)"

definition localApi :: api_config where
  "localApi = \<lparr>apiBaseUrl = ''http://localhost:8000'', authToken = None\<rparr>"

definition initialWorld :: auth_world where
  "initialWorld =
     \<lparr>currentAuthState = \<lparr>google = None, bizdash = None, isFullyAuthenticated = False\<rparr>,
      apiConfig = \<lparr>apiBaseUrl = ''http://localhost:8000'', authToken = None\<rparr>,
      localStorage = Map.empty\<rparr>"






section \<open>Properties of the address pattern\<close>

lemma set_optChar: "r \<in> set (optChar c s) \<Longrightarrow> r = s \<or> s = c # r"
  by (auto simp: optChar_def split: list.splits if_splits)

lemma optChar_hit: "optChar c (c # s) = [s, c # s]"
  by (simp add: optChar_def)

lemma optChar_miss: "(\<And>r. s \<noteq> c # r) \<Longrightarrow> optChar c s = [s]"
  by (cases s) (auto simp: optChar_def)

lemma set_greedyClass:
  "set (greedyClass P m s) = {(take n s, drop n s) | n. m \<le> n \<and> n \<le> length (takeWhile P s)}"
  by (auto simp: greedyClass_def)

lemma greedyClass_split:
  assumes "(a, r) \<in> set (greedyClass P m s)"
  shows "s = a @ r" and "m \<le> length a" and "\<forall>c\<in>set a. P c"
proof -
  from assms obtain n where n: "a = take n s" "r = drop n s" "m \<le> n" "n \<le> length (takeWhile P s)"
    by (auto simp: set_greedyClass)
  show "s = a @ r" using n by simp
  have le: "length (takeWhile P s) \<le> length s" by (rule length_takeWhile_le)
  show "m \<le> length a" using n le by simp
  have "a = take n (takeWhile P s)"
    using n by (metis takeWhile_eq_take take_take min.absorb1 min.commute)
  then have "set a \<subseteq> set (takeWhile P s)" by (metis set_take_subset)
  then show "\<forall>c\<in>set a. P c" by (auto dest: set_takeWhileD)
qed

lemma greedyClass_mem:
  assumes "\<forall>c\<in>set a. P c" "m \<le> length a"
  shows "(a, r) \<in> set (greedyClass P m (a @ r))"
proof -
  have "length a \<le> length (takeWhile P (a @ r))"
    using assms(1) by (simp add: takeWhile_append2)
  then show ?thesis
    using assms(2) by (auto simp: set_greedyClass intro!: exI[of _ "length a"])
qed

lemma greedyClass_head:
  assumes "m \<le> length (takeWhile P s)"
  shows "\<exists>more. greedyClass P m s = (takeWhile P s, dropWhile P s) # more"
proof -
  let ?k = "length (takeWhile P s)"
  have "rev [m ..< Suc ?k] = ?k # rev [m ..< ?k]" using assms by simp
  moreover have "take ?k s = takeWhile P s" by (metis takeWhile_eq_take)
  moreover have "drop ?k s = dropWhile P s" by (metis dropWhile_eq_drop)
  ultimately show ?thesis by (simp add: greedyClass_def)
qed

lemma bind_cons: "List.bind (x # xs) f = f x @ List.bind xs f"
  by simp

lemma set_closeAngle: "x \<in> set (closeAngle e s) \<Longrightarrow> x = e \<and> (s = [] \<or> s = ''>'')"
  by (auto simp: closeAngle_def List.bind_def dest!: set_optChar split: if_splits)

lemma closeAngle_end: "s = [] \<or> s = ''>'' \<Longrightarrow> e \<in> set (closeAngle e s)"
  by (auto simp: closeAngle_def optChar_def)

lemma set_afterLocal:
  assumes "x \<in> set (afterLocal a s2)"
  shows "\<exists>b t. x = a @ CHR ''@'' # b \<and> b \<noteq> [] \<and> CHR ''>'' \<notin> set b \<and> s2 = CHR ''@'' # b @ t \<and> (t = [] \<or> t = ''>'')"
proof -
  from assms obtain s3 where s2: "s2 = CHR ''@'' # s3"
    and 3: "x \<in> set (List.bind (greedyClass notGt 1 s3) (\<lambda>(b, s4). closeAngle (a @ CHR ''@'' # b) s4))"
    unfolding afterLocal_def by (cases s2) (auto split: if_splits)
  from 3 obtain b s4 where 4: "(b, s4) \<in> set (greedyClass notGt 1 s3)"
    and 5: "x \<in> set (closeAngle (a @ CHR ''@'' # b) s4)"
    by (auto simp: List.bind_def)
  note B = greedyClass_split[OF 4]
  from 5 have x: "x = a @ CHR ''@'' # b" and e: "s4 = [] \<or> s4 = ''>''"
    by (auto dest: set_closeAngle)
  have "CHR ''>'' \<notin> set b" using B(3) by (auto simp: notGt_def)
  moreover have "b \<noteq> []" using B(2) by auto
  ultimately show ?thesis using x e s2 B(1) by blast
qed

lemma set_angleBody:
  assumes "x \<in> set (angleBody s)"
  shows "\<exists>a b. x = a @ CHR ''@'' # b \<and> a \<noteq> [] \<and> b \<noteq> [] \<and> CHR ''>'' \<notin> set x \<and> (s = x \<or> s = x @ ''>'')"
proof -
  from assms obtain a s2 where 1: "(a, s2) \<in> set (greedyClass notGt 1 s)"
    and 2: "x \<in> set (afterLocal a s2)"
    by (auto simp: angleBody_def List.bind_def)
  note A = greedyClass_split[OF 1]
  from set_afterLocal[OF 2] obtain b t where
    x: "x = a @ CHR ''@'' # b" and b: "b \<noteq> []" "CHR ''>'' \<notin> set b"
    and s2: "s2 = CHR ''@'' # b @ t" and t: "t = [] \<or> t = ''>''" by blast
  have "CHR ''>'' \<notin> set x" using A(3) b x by (auto simp: notGt_def)
  moreover have "s = x \<or> s = x @ ''>''" using A(1) s2 x t by auto
  moreover have "a \<noteq> []" using A(2) by auto
  ultimately show ?thesis using x b by blast
qed

lemma angleBody_mem:
  assumes "e = a @ CHR ''@'' # b" "a \<noteq> []" "b \<noteq> []" "CHR ''>'' \<notin> set e" "s = e \<or> s = e @ ''>''"
  shows "e \<in> set (angleBody s)"
proof -
  obtain t where t: "s = e @ t" "t = [] \<or> t = ''>''" using assms(5) by auto
  have a: "\<forall>c\<in>set a. notGt c" and b: "\<forall>c\<in>set b. notGt c"
    using assms(1,4) by (auto simp: notGt_def)
  have "(a, CHR ''@'' # b @ t) \<in> set (greedyClass notGt 1 (a @ CHR ''@'' # b @ t))"
    using a assms(2) by (intro greedyClass_mem) (auto simp: Suc_le_eq)
  then have 1: "(a, CHR ''@'' # b @ t) \<in> set (greedyClass notGt 1 s)"
    using t assms(1) by simp
  have 2: "(b, t) \<in> set (greedyClass notGt 1 (b @ t))"
    using b assms(3) by (intro greedyClass_mem) (auto simp: Suc_le_eq)
  have 3: "e \<in> set (closeAngle (a @ CHR ''@'' # b) t)"
    using closeAngle_end[OF t(2)] assms(1) by simp
  have "e \<in> set (afterLocal a (CHR ''@'' # b @ t))"
    unfolding afterLocal_def using 2 3 by (force simp: List.bind_def)
  then show ?thesis
    unfolding angleBody_def using 1 by (force simp: List.bind_def)
qed

lemma angleBody_only:
  assumes "e = a @ CHR ''@'' # b" "a \<noteq> []" "b \<noteq> []" "CHR ''>'' \<notin> set e" "s = e \<or> s = e @ ''>''"
  shows "\<exists>more. angleBody s = e # more"
proof -
  have ne: "angleBody s \<noteq> []" using angleBody_mem[OF assms] by auto
  then obtain x more where xm: "angleBody s = x # more" by (cases "angleBody s") auto
  then have "x \<in> set (angleBody s)" by simp
  from set_angleBody[OF this] have "CHR ''>'' \<notin> set x" "s = x \<or> s = x @ ''>''" by auto
  with assms(4,5) have "x = e" by auto
  with xm show ?thesis by blast
qed

lemma matchAngle_bracketed:
  assumes "e = a @ CHR ''@'' # b" "a \<noteq> []" "b \<noteq> []" "CHR ''>'' \<notin> set e"
  shows "\<exists>more. matchAngle (CHR ''<'' # e @ ''>'') = e # more"
proof -
  obtain more where "angleBody (e @ ''>'') = e # more"
    using angleBody_only[OF assms, of "e @ ''>''"] by auto
  then show ?thesis by (simp add: matchAngle_def optChar_hit)
qed

lemma matchAngle_bare:
  assumes "e = a @ CHR ''@'' # b" "a \<noteq> []" "b \<noteq> []" "CHR ''>'' \<notin> set e" "CHR ''<'' \<notin> set e"
  shows "\<exists>more. matchAngle e = e # more"
proof -
  obtain more where "angleBody e = e # more"
    using angleBody_only[OF assms(1-4), of e] by auto
  moreover have "optChar CHR ''<'' e = [e]"
    using assms(5) by (intro optChar_miss) auto
  ultimately show ?thesis by (simp add: matchAngle_def)
qed

lemma matchAngle_needs_at: "x \<in> set (matchAngle s) \<Longrightarrow> CHR ''@'' \<in> set s"
proof -
  assume "x \<in> set (matchAngle s)"
  then obtain s1 where 1: "s1 \<in> set (optChar CHR ''<'' s)" and 2: "x \<in> set (angleBody s1)"
    by (auto simp: matchAngle_def List.bind_def)
  from set_angleBody[OF 2] have "CHR ''@'' \<in> set s1" by auto
  with set_optChar[OF 1] show ?thesis by auto
qed

lemma set_afterName:
  assumes "x \<in> set (afterName n s)"
  shows "\<exists>w s4 e. s = w # s4 \<and> isWhiteSpace w \<and> e \<in> set (matchAngle s4) \<and> x = (Some n, e)"
  using assms unfolding afterName_def by (cases s) (auto split: if_splits)

lemma set_withName:
  assumes "x \<in> set (withName raw)"
  shows "\<exists>w s4. isWhiteSpace w \<and> w \<in> set raw \<and> set s4 \<subseteq> set raw \<and> snd x \<in> set (matchAngle s4)"
proof -
  from assms obtain s1 n s2 s3 where 1: "s1 \<in> set (optChar dquote raw)"
    and 2: "(n, s2) \<in> set (greedyClass notQuote 0 s1)"
    and 3: "s3 \<in> set (optChar dquote s2)" and 4: "x \<in> set (afterName n s3)"
    by (auto simp: withName_def List.bind_def)
  from set_afterName[OF 4] obtain w s4 e where
    5: "s3 = w # s4" "isWhiteSpace w" "e \<in> set (matchAngle s4)" "x = (Some n, e)" by blast
  have "set s3 \<subseteq> set s2" using set_optChar[OF 3] by auto
  moreover have "set s2 \<subseteq> set s1" using greedyClass_split(1)[OF 2] by auto
  moreover have "set s1 \<subseteq> set raw" using set_optChar[OF 1] by auto
  ultimately have "set s3 \<subseteq> set raw" by blast
  with 5 show ?thesis by auto
qed

lemma withName_quoted:
  assumes "dquote \<notin> set n" "isWhiteSpace w"
  shows "\<exists>more. withName (dquote # n @ dquote # w # rest) = map (\<lambda>e. (Some n, e)) (matchAngle rest) @ more"
proof -
  let ?s1 = "n @ dquote # w # rest"
  have tw: "takeWhile notQuote ?s1 = n" and dw: "dropWhile notQuote ?s1 = dquote # w # rest"
    using assms(1) by (auto simp: notQuote_def takeWhile_append2 dropWhile_append2 takeWhile_tail dropWhile_append3)
  obtain more1 where g: "greedyClass notQuote 0 ?s1 = (n, dquote # w # rest) # more1"
    using greedyClass_head[of 0 notQuote ?s1] tw dw by auto
  have "afterName n (w # rest) = map (\<lambda>e. (Some n, e)) (matchAngle rest)"
    using assms(2) by (simp add: afterName_def)
  then show ?thesis
    by (simp add: withName_def optChar_hit g)
qed

lemma regexMatch_quoted:
  assumes "dquote \<notin> set n" "e = a @ CHR ''@'' # b" "a \<noteq> []" "b \<noteq> []" "CHR ''>'' \<notin> set e"
  shows "regexMatch (dquote # n @ dquote # CHR '' '' # CHR ''<'' # e @ ''>'') = Some (Some n, e)"
proof -
  have ws: "isWhiteSpace CHR '' ''" by (simp add: isWhiteSpace_def)
  obtain more1 where 1: "withName (dquote # n @ dquote # CHR '' '' # CHR ''<'' # e @ ''>'')
      = map (\<lambda>e. (Some n, e)) (matchAngle (CHR ''<'' # e @ ''>'')) @ more1"
    using withName_quoted[OF assms(1) ws] by blast
  obtain more2 where 2: "matchAngle (CHR ''<'' # e @ ''>'') = e # more2"
    using matchAngle_bracketed[OF assms(2-5)] by blast
  show ?thesis by (simp add: regexMatch_def matchAddress_def 1 2)
qed

lemma regexMatch_bare:
  assumes "e = a @ CHR ''@'' # b" "a \<noteq> []" "b \<noteq> []" "CHR ''>'' \<notin> set e" "CHR ''<'' \<notin> set e"
    "\<forall>c\<in>set e. \<not> isWhiteSpace c"
  shows "regexMatch e = Some (None, e)"
proof -
  have "withName e = []"
  proof (cases "withName e")
    case (Cons x xs)
    then have "x \<in> set (withName e)" by simp
    from set_withName[OF this] assms(6) show ?thesis by blast
  qed simp
  moreover obtain more where "matchAngle e = e # more"
    using matchAngle_bare[OF assms(1-5)] by blast
  ultimately show ?thesis by (simp add: regexMatch_def matchAddress_def)
qed

lemma regexMatch_no_at:
  assumes "CHR ''@'' \<notin> set raw"
  shows "regexMatch raw = None"
proof -
  have "matchAddress raw = []"
  proof (cases "matchAddress raw")
    case (Cons x xs)
    then have "x \<in> set (matchAddress raw)" by simp
    then have "x \<in> set (withName raw) \<or> snd x \<in> set (matchAngle raw)"
      by (auto simp: matchAddress_def)
    then show ?thesis
    proof
      assume "x \<in> set (withName raw)"
      from set_withName[OF this] obtain s4 where "set s4 \<subseteq> set raw" "snd x \<in> set (matchAngle s4)" by blast
      with matchAngle_needs_at assms show ?thesis by blast
    next
      assume "snd x \<in> set (matchAngle raw)"
      with matchAngle_needs_at assms show ?thesis by blast
    qed
  qed simp
  then show ?thesis by (simp add: regexMatch_def)
qed

lemma dropWhile_keep: "s \<noteq> [] \<Longrightarrow> \<not> P (hd s) \<Longrightarrow> dropWhile P s = s"
  by (cases s) auto

lemma trim_id:
  assumes "s \<noteq> []" "\<not> isWhiteSpace (hd s)" "\<not> isWhiteSpace (last s)"
  shows "trim s = s"
proof -
  have "dropWhile isWhiteSpace s = s" using assms(1,2) by (rule dropWhile_keep)
  moreover have "dropWhile isWhiteSpace (rev s) = rev s"
    using assms(1,3) by (intro dropWhile_keep) (auto simp: hd_rev)
  ultimately show ?thesis by (simp add: trim_def)
qed

lemma trim_no_ws:
  assumes "\<forall>c\<in>set s. \<not> isWhiteSpace c"
  shows "trim s = s"
proof (cases "s = []")
  case True
  then show ?thesis by (simp add: trim_def)
next
  case False
  then have "hd s \<in> set s" "last s \<in> set s" by simp_all
  with assms False show ?thesis by (intro trim_id) auto
qed

section \<open>Properties of the splitting loop\<close>

lemma pushCurrent_append: "pushCurrent (A @ B) c = A @ pushCurrent B c"
  by (simp add: pushCurrent_def)

lemma pushCurrent_length: "length (pushCurrent A c) \<le> Suc (length A)"
  by (simp add: pushCurrent_def)

lemma run_inQuotes:
  "foldl splitStep (A, c, q) xs = (A', c', q') \<Longrightarrow> q' = (q \<noteq> odd (count_list xs dquote))"
proof (induction xs arbitrary: A c q)
  case Nil
  then show ?case by simp
next
  case (Cons x xs)
  show ?case
  proof (cases "x = dquote")
    case True
    with Cons.prems have "foldl splitStep (A, c @ [x], \<not> q) xs = (A', c', q')" by simp
    from Cons.IH[OF this] True show ?thesis by auto
  next
    case False
    show ?thesis
    proof (cases "x = CHR '','' \<and> \<not> q")
      case True
      with False Cons.prems have "foldl splitStep (pushCurrent A c, [], q) xs = (A', c', q')" by simp
      from Cons.IH[OF this] False show ?thesis by auto
    next
      case F2: False
      with False Cons.prems have "foldl splitStep (A, c @ [x], q) xs = (A', c', q')" by auto
      from Cons.IH[OF this] False show ?thesis by auto
    qed
  qed
qed

lemma splitStep_comma: "splitStep (A, c, False) CHR '','' = (pushCurrent A c, [], False)"
  by simp

lemma splitStep_quote: "splitStep (A, c, q) dquote = (A, c @ [dquote], \<not> q)"
  by simp

lemma splitStep_other:
  "\<not> (x = CHR '','' \<and> \<not> q) \<Longrightarrow> x \<noteq> dquote \<Longrightarrow> splitStep (A, c, q) x = (A, c @ [x], q)"
  by auto

lemma run_acc:
  "foldl splitStep (A, c, q) xs =
     (case foldl splitStep ([], c, q) xs of (A', c', q') \<Rightarrow> (A @ A', c', q'))"
proof (induction xs arbitrary: A c q)
  case Nil
  then show ?case by simp
next
  case (Cons x xs)
  consider (comma) "x = CHR '',''" "\<not> q" | (quote) "x = dquote"
    | (other) "\<not> (x = CHR '','' \<and> \<not> q)" "x \<noteq> dquote" by blast
  then show ?case
  proof cases
    case comma
    obtain A1 c1 q1 where F: "foldl splitStep ([], [], False) xs = (A1, c1, q1)"
      by (cases "foldl splitStep ([], [], False) xs") auto
    have L: "foldl splitStep (A, c, q) (x # xs) = (pushCurrent A c @ A1, c1, q1)"
      using comma by (simp only: foldl_Cons splitStep_comma Cons.IH[of "pushCurrent A c" "[]" False] F prod.case)
    have R: "foldl splitStep ([], c, q) (x # xs) = (pushCurrent [] c @ A1, c1, q1)"
      using comma by (simp only: foldl_Cons splitStep_comma Cons.IH[of "pushCurrent [] c" "[]" False] F prod.case)
    show ?thesis unfolding L R by (simp add: pushCurrent_def)
  next
    case quote
    show ?thesis
      unfolding quote foldl_Cons splitStep_quote by (rule Cons.IH)
  next
    case other
    show ?thesis
      unfolding foldl_Cons splitStep_other[OF other] by (rule Cons.IH)
  qed
qed

lemma splitAddresses_Nil: "splitAddresses [] = []"
  by (simp add: splitAddresses_def pushCurrent_def trim_def)

lemma parseEmailAddresses_map: "parseEmailAddresses raw = map parseEmailAddress (splitAddresses raw)"
  by (simp add: parseEmailAddresses_def splitAddresses_Nil)

lemma splitAddresses_comma:
  assumes "even (count_list xs dquote)"
  shows "splitAddresses (xs @ CHR '','' # ys) = splitAddresses xs @ splitAddresses ys"
proof -
  obtain A c q where 1: "foldl splitStep ([], [], False) xs = (A, c, q)"
    by (cases "foldl splitStep ([], [], False) xs") auto
  from run_inQuotes[OF 1] assms have q: "q = False" by simp
  obtain A' c' q' where 2: "foldl splitStep ([], [], False) ys = (A', c', q')"
    by (cases "foldl splitStep ([], [], False) ys") auto
  have "foldl splitStep ([], [], False) (xs @ CHR '','' # ys)
      = foldl splitStep (pushCurrent A c, [], False) ys"
    using 1 q by simp
  also have "\<dots> = (pushCurrent A c @ A', c', q')"
    using run_acc[of "pushCurrent A c" "[]" False ys] 2 by simp
  finally have "splitAddresses (xs @ CHR '','' # ys) = pushCurrent (pushCurrent A c @ A') c'"
    by (simp add: splitAddresses_def)
  then show ?thesis
    using 1 2 by (simp add: splitAddresses_def pushCurrent_append)
qed

lemma run_plain:
  "\<forall>x\<in>set xs. x \<noteq> dquote \<and> x \<noteq> CHR '','' \<Longrightarrow>
   foldl splitStep (A, c, q) xs = (A, c @ xs, q)"
  by (induction xs arbitrary: c) auto

lemma trim_blank:
  assumes "\<forall>x\<in>set ws. isWhiteSpace x"
  shows "trim ws = []"
proof -
  have dw: "dropWhile isWhiteSpace ws = []" using assms by simp
  show ?thesis unfolding trim_def dw by simp
qed

lemma whiteSpace_plain: "isWhiteSpace x \<Longrightarrow> x \<noteq> dquote \<and> x \<noteq> CHR '',''"
  unfolding isWhiteSpace_def by (elim disjE) simp_all

lemma splitAddresses_blank:
  assumes "\<forall>x\<in>set ws. isWhiteSpace x"
  shows "splitAddresses ws = []"
proof -
  have "\<forall>x\<in>set ws. x \<noteq> dquote \<and> x \<noteq> CHR '',''"
    using assms whiteSpace_plain by blast
  then have "foldl splitStep ([], [], False) ws = ([], ws, False)"
    using run_plain[of ws "[]" "[]" False] by simp
  then show ?thesis using trim_blank[OF assms] by (simp add: splitAddresses_def pushCurrent_def)
qed

lemma blank_no_quote: "\<forall>x\<in>set ws. isWhiteSpace x \<Longrightarrow> count_list ws dquote = 0"
  using whiteSpace_plain by (auto simp: count_list_0_iff)

lemma numCommasOutside_snoc:
  "numCommasOutside (xs @ [c]) =
     numCommasOutside xs + (if c = CHR '','' \<and> even (count_list xs dquote) then 1 else 0)"
proof -
  have "filter (commaOutside (xs @ [c])) [0 ..< length xs] = filter (commaOutside xs) [0 ..< length xs]"
    by (rule filter_cong) (auto simp: commaOutside_def nth_append)
  moreover have "commaOutside (xs @ [c]) (length xs) \<longleftrightarrow> c = CHR '','' \<and> even (count_list xs dquote)"
    by (simp add: commaOutside_def)
  ultimately show ?thesis by (simp add: numCommasOutside_def)
qed

lemma run_bound:
  "foldl splitStep ([], [], False) xs = (A, c, q) \<Longrightarrow> length A \<le> numCommasOutside xs"
proof (induction xs arbitrary: A c q rule: rev_induct)
  case Nil
  then show ?case by (simp add: numCommasOutside_def)
next
  case (snoc x xs)
  obtain A0 c0 q0 where 0: "foldl splitStep ([], [], False) xs = (A0, c0, q0)"
    by (cases "foldl splitStep ([], [], False) xs") auto
  from run_inQuotes[OF 0] have q0: "q0 = odd (count_list xs dquote)" by simp
  from snoc.IH[OF 0] have le: "length A0 \<le> numCommasOutside xs" .
  from snoc.prems 0 have step: "splitStep (A0, c0, q0) x = (A, c, q)" by simp
  show ?case
  proof (cases "x = CHR '','' \<and> \<not> q0")
    case True
    with step have "A = pushCurrent A0 c0" by (auto simp: Let_def)
    then have "length A \<le> Suc (length A0)" by (simp add: pushCurrent_length)
    with le True q0 show ?thesis by (simp add: numCommasOutside_snoc)
  next
    case False
    with step have "A = A0" by (auto simp: Let_def split: if_splits)
    with le show ?thesis by (simp add: numCommasOutside_snoc)
  qed
qed

lemma run_unsplit:
  "numCommasOutside xs = 0 \<Longrightarrow>
   foldl splitStep ([], [], False) xs = ([], xs, odd (count_list xs dquote))"
proof (induction xs rule: rev_induct)
  case Nil
  then show ?case by simp
next
  case (snoc x xs)
  from snoc.prems have 0: "numCommasOutside xs = 0"
    and nc: "\<not> (x = CHR '','' \<and> even (count_list xs dquote))"
    by (auto simp: numCommasOutside_snoc split: if_splits)
  from snoc.IH[OF 0] nc show ?case by (auto simp: Let_def)
qed

lemma splitAddresses_bound: "length (splitAddresses raw) \<le> Suc (numCommasOutside raw)"
proof -
  obtain A c q where 1: "foldl splitStep ([], [], False) raw = (A, c, q)"
    by (cases "foldl splitStep ([], [], False) raw") auto
  from run_bound[OF 1] pushCurrent_length[of A c] show ?thesis
    by (simp add: splitAddresses_def 1)
qed

lemma splitAddresses_unsplit:
  "numCommasOutside raw = 0 \<Longrightarrow> splitAddresses raw = (if trim raw = [] then [] else [trim raw])"
  by (simp add: splitAddresses_def run_unsplit pushCurrent_def)

section \<open>Claims about address parsing\<close>

text \<open>
  Claim C1. \<open>parseEmailAddresses\<close> splits only on commas outside double quotes. It returns
  at most one address more than the header has commas outside quotes; a header with no
  comma outside quotes is never split, whatever commas its quoted parts hold; a comma
  after a prefix with balanced quotes splits the header there and nowhere inside the two
  parts more than each part alone is split; and the header
  \<^verbatim>\<open>"Smith, John" <j@x.com>, b@y.com\<close> yields exactly two addresses.
\<close>

theorem parseEmailAddresses_quote_aware:
  "length (parseEmailAddresses raw) \<le> Suc (numCommasOutside raw)
   \<and> (numCommasOutside raw = 0 \<longrightarrow>
        parseEmailAddresses raw = (if trim raw = [] then [] else [parseEmailAddress (trim raw)]))
   \<and> (even (count_list xs dquote) \<longrightarrow>
        parseEmailAddresses (xs @ CHR '','' # ys) = parseEmailAddresses xs @ parseEmailAddresses ys)
   \<and> parseEmailAddresses (dquote # ''Smith, John'' @ dquote # '' <j@x.com>, b@y.com'') =
       [\<lparr>email = ''j@x.com'', name = Some ''Smith, John''\<rparr>, \<lparr>email = ''b@y.com'', name = None\<rparr>]"
proof (intro conjI impI)
  show "length (parseEmailAddresses raw) \<le> Suc (numCommasOutside raw)"
    using splitAddresses_bound[of raw] by (simp add: parseEmailAddresses_map)
  show "parseEmailAddresses raw = (if trim raw = [] then [] else [parseEmailAddress (trim raw)])"
    if "numCommasOutside raw = 0"
    using splitAddresses_unsplit[OF that] by (simp add: parseEmailAddresses_map)
  show "parseEmailAddresses (xs @ CHR '','' # ys) = parseEmailAddresses xs @ parseEmailAddresses ys"
    if "even (count_list xs dquote)"
    using splitAddresses_comma[OF that] by (simp add: parseEmailAddresses_map)
  show "parseEmailAddresses (dquote # ''Smith, John'' @ dquote # '' <j@x.com>, b@y.com'') =
       [\<lparr>email = ''j@x.com'', name = Some ''Smith, John''\<rparr>, \<lparr>email = ''b@y.com'', name = None\<rparr>]"
    by code_simp
qed

theorem parseEmailAddresses_quote_aware_witness:
  "numCommasOutside (dquote # ''Smith, John'' @ dquote # '' <j@x.com>'') = 0
   \<and> parseEmailAddresses (dquote # ''Smith, John'' @ dquote # '' <j@x.com>'') =
       [\<lparr>email = ''j@x.com'', name = Some ''Smith, John''\<rparr>]
   \<and> even (count_list (dquote # ''Smith, John'' @ dquote # '' <j@x.com>'') dquote)
   \<and> parseEmailAddresses ((dquote # ''Smith, John'' @ dquote # '' <j@x.com>'') @ CHR '','' # '' b@y.com'') =
       parseEmailAddresses (dquote # ''Smith, John'' @ dquote # '' <j@x.com>'') @ parseEmailAddresses '' b@y.com''"
proof -
  let ?X = "dquote # ''Smith, John'' @ dquote # '' <j@x.com>''"
  have h1: "numCommasOutside ?X = 0" by code_simp
  have h2: "even (count_list ?X dquote)" by code_simp
  have t: "trim ?X = ?X" by code_simp
  have p: "parseEmailAddress ?X = \<lparr>email = ''j@x.com'', name = Some ''Smith, John''\<rparr>" by code_simp
  note T = parseEmailAddresses_quote_aware[of ?X ?X "'' b@y.com''"]
  from T h1 have "parseEmailAddresses ?X = (if trim ?X = [] then [] else [parseEmailAddress (trim ?X)])"
    by blast
  then have a: "parseEmailAddresses ?X = [\<lparr>email = ''j@x.com'', name = Some ''Smith, John''\<rparr>]"
    unfolding t p by simp
  from T h2 have b: "parseEmailAddresses (?X @ CHR '','' # '' b@y.com'') =
       parseEmailAddresses ?X @ parseEmailAddresses '' b@y.com''" by blast
  from h1 a h2 b show ?thesis by blast
qed

text \<open>
  Claim C2. For a well-formed \<^verbatim>\<open>"Name" <email>\<close> string \<open>parseEmailAddress\<close> returns the
  name and the lower-cased address, and for the bare address it returns the lower-cased
  address with no name. Well-formed: the name is not empty, holds no double quote and
  neither starts nor ends with white space; the address has an \<open>@\<close> with text on both
  sides and holds no angle bracket and no white space.
\<close>

theorem parseEmailAddress_well_formed:
  assumes "n \<noteq> []" and "dquote \<notin> set n"
    and "\<not> isWhiteSpace (hd n)" and "\<not> isWhiteSpace (last n)"
    and "e = a @ CHR ''@'' # b" and "a \<noteq> []" and "b \<noteq> []"
    and "\<forall>c\<in>set e. c \<noteq> CHR ''<'' \<and> c \<noteq> CHR ''>'' \<and> \<not> isWhiteSpace c"
  shows "parseEmailAddress (dquote # n @ dquote # CHR '' '' # CHR ''<'' # e @ ''>'') =
           \<lparr>email = toLowerCase e, name = Some n\<rparr>
       \<and> parseEmailAddress e = \<lparr>email = toLowerCase e, name = None\<rparr>"
proof -
  have gt: "CHR ''>'' \<notin> set e" and lt: "CHR ''<'' \<notin> set e"
    and ws: "\<forall>c\<in>set e. \<not> isWhiteSpace c"
    using assms(8) by auto
  have te: "trim e = e" using ws by (rule trim_no_ws)
  have tn: "trim n = n" using assms(1,3,4) by (rule trim_id)
  have "regexMatch (dquote # n @ dquote # CHR '' '' # CHR ''<'' # e @ ''>'') = Some (Some n, e)"
    using assms(2,5,6,7) gt by (rule regexMatch_quoted)
  then have 1: "parseEmailAddress (dquote # n @ dquote # CHR '' '' # CHR ''<'' # e @ ''>'') =
           \<lparr>email = toLowerCase e, name = Some n\<rparr>"
    using assms(1) by (simp add: parseEmailAddress_def te tn orUndefined_def)
  have "regexMatch e = Some (None, e)"
    using assms(5,6,7) gt lt ws by (rule regexMatch_bare)
  then have 2: "parseEmailAddress e = \<lparr>email = toLowerCase e, name = None\<rparr>"
    by (simp add: parseEmailAddress_def te)
  from 1 2 show ?thesis by blast
qed

theorem parseEmailAddress_well_formed_witness:
  "parseEmailAddress (dquote # ''John Smith'' @ dquote # '' <John@Example.com>'') =
     \<lparr>email = ''john@example.com'', name = Some ''John Smith''\<rparr>
   \<and> parseEmailAddress ''John@Example.com'' = \<lparr>email = ''john@example.com'', name = None\<rparr>"
proof -
  have h1: "''John Smith'' \<noteq> []" and h2: "dquote \<notin> set ''John Smith''"
    and h3: "\<not> isWhiteSpace (hd ''John Smith'')" and h4: "\<not> isWhiteSpace (last ''John Smith'')"
    and h5: "''John@Example.com'' = ''John'' @ CHR ''@'' # ''Example.com''"
    and h6: "''John'' \<noteq> []" and h7: "''Example.com'' \<noteq> []"
    and h8: "\<forall>c\<in>set ''John@Example.com''. c \<noteq> CHR ''<'' \<and> c \<noteq> CHR ''>'' \<and> \<not> isWhiteSpace c"
    by (simp_all add: isWhiteSpace_def)
  have l: "toLowerCase ''John@Example.com'' = ''john@example.com''" by code_simp
  from parseEmailAddress_well_formed[OF h1 h2 h3 h4 h5 h6 h7 h8] show ?thesis
    unfolding l by simp
qed

text \<open>
  Claim C8. A string that the pattern does not match, in particular every string with
  no \<open>@\<close>, comes back whole, trimmed and lower-cased, as the \<open>email\<close> with no name; and
  the empty header value gives the empty list.
\<close>

theorem parseEmailAddress_fallback:
  "(regexMatch raw = None \<longrightarrow>
      parseEmailAddress raw = \<lparr>email = toLowerCase (trim raw), name = None\<rparr>)
   \<and> (CHR ''@'' \<notin> set raw \<longrightarrow>
      parseEmailAddress raw = \<lparr>email = toLowerCase (trim raw), name = None\<rparr>)
   \<and> parseEmailAddresses [] = []"
  using regexMatch_no_at[of raw] by (simp add: parseEmailAddress_def parseEmailAddresses_def)

theorem parseEmailAddress_fallback_witness:
  "regexMatch '' Not An Address '' = None
   \<and> CHR ''@'' \<notin> set '' Not An Address ''
   \<and> parseEmailAddress '' Not An Address '' = \<lparr>email = ''not an address'', name = None\<rparr>"
proof -
  have h1: "regexMatch '' Not An Address '' = None" by code_simp
  have h2: "CHR ''@'' \<notin> set '' Not An Address ''" by simp
  have l: "toLowerCase (trim '' Not An Address '') = ''not an address''" by code_simp
  from parseEmailAddress_fallback[of "'' Not An Address ''"] h1 h2 show ?thesis
    unfolding l by blast
qed

text \<open>
  Claim C10, as stated: an extra comma never changes the result of
  \<open>parseEmailAddresses\<close>. It fails where the extra comma stands inside double quotes: the
  two consecutive commas of \<^verbatim>\<open>"a,,b" <x@y.com>\<close> belong to the display name.
\<close>

theorem parseEmailAddresses_quoted_comma_counterexample:
  "parseEmailAddresses (dquote # ''a,,b'' @ dquote # '' <x@y.com>'')
     \<noteq> parseEmailAddresses (dquote # ''a,b'' @ dquote # '' <x@y.com>'')"
  by code_simp

text \<open>The same happens to a trailing comma after a quote that was never closed.\<close>

lemma parseEmailAddresses_unbalanced_trailing_comma:
  "parseEmailAddresses (dquote # ''abc,'') \<noteq> parseEmailAddresses (dquote # ''abc'')"
  by code_simp

text \<open>
  Claim C10, amended. Outside double quotes empty segments are discarded: for white
  space \<open>ws\<close> (possibly empty) and a prefix \<open>xs\<close> with an even number of double quotes,
  a leading \<open>ws,\<close>, a trailing \<open>,ws\<close> after \<open>xs\<close> and a second separator \<open>,ws\<close> after
  the comma that follows \<open>xs\<close> leave the result unchanged.
\<close>

theorem parseEmailAddresses_empty_segments:
  assumes "even (count_list xs dquote)" and "\<forall>c\<in>set ws. isWhiteSpace c"
  shows "parseEmailAddresses (ws @ CHR '','' # ys) = parseEmailAddresses ys
       \<and> parseEmailAddresses (xs @ CHR '','' # ws) = parseEmailAddresses xs
       \<and> parseEmailAddresses (xs @ CHR '','' # ws @ CHR '','' # ys) = parseEmailAddresses (xs @ CHR '','' # ys)"
proof -
  have ews: "even (count_list ws dquote)" using blank_no_quote[OF assms(2)] by simp
  have b: "splitAddresses ws = []" using assms(2) by (rule splitAddresses_blank)
  have 1: "splitAddresses (ws @ CHR '','' # ys) = splitAddresses ys"
    using splitAddresses_comma[OF ews, of ys] b by simp
  have 2: "splitAddresses (xs @ CHR '','' # ws) = splitAddresses xs"
    using splitAddresses_comma[OF assms(1), of ws] b by simp
  have 3: "splitAddresses (xs @ CHR '','' # ws @ CHR '','' # ys) = splitAddresses (xs @ CHR '','' # ys)"
    using splitAddresses_comma[OF assms(1), of "ws @ CHR '','' # ys"]
      splitAddresses_comma[OF assms(1), of ys] 1 by simp
  from 1 2 3 show ?thesis by (simp add: parseEmailAddresses_map)
qed

theorem parseEmailAddresses_empty_segments_witness:
  "parseEmailAddresses '' , b@y.com'' = parseEmailAddresses '' b@y.com''
   \<and> parseEmailAddresses ''a@x.com, '' = parseEmailAddresses ''a@x.com''
   \<and> parseEmailAddresses ''a@x.com, , b@y.com'' = parseEmailAddresses ''a@x.com, b@y.com''"
proof -
  have h1: "even (count_list ''a@x.com'' dquote)" by simp
  have h2: "\<forall>c\<in>set '' ''. isWhiteSpace c" by (simp add: isWhiteSpace_def)
  from parseEmailAddresses_empty_segments[OF h1 h2, of "'' b@y.com''"]
  show ?thesis by simp
qed

section \<open>Claims about the API client\<close>

lemma getExists_True:
  "getExists v = Inr (JsJson (JBool True)) \<longleftrightarrow>
     (\<exists>props. v = JObject props \<and> map_of props ''exists'' = Some (JBool True))"
  by (cases v) (auto simp: getExists_def split: option.splits)

lemma isEmailLogged_cases:
  "isEmailLogged net cfg mid =
     (case net (checkRequest cfg mid) of
        Rejected e \<Rightarrow> Inr (JsJson (JBool False))
      | Responded response \<Rightarrow>
          if \<not> ok response then Inr (JsJson (JBool False))
          else (case jsonBody response of
                  None \<Rightarrow> Inr (JsJson (JBool False))
                | Some v \<Rightarrow> tryCatch (getExists v) (\<lambda>_. Inr (JsJson (JBool False)))))"
  by (simp add: isEmailLogged_def apiRequest_def checkRequest_def tryCatch_def andThen_def Let_def
      split: fetch_outcome.splits option.splits)

lemma getExists_caught: "\<exists>x. tryCatch (getExists v) (\<lambda>_. Inr (JsJson (JBool False))) = Inr x"
  by (cases v) (simp_all add: getExists_def tryCatch_def)

lemma getExists_caught_True:
  "tryCatch (getExists v) (\<lambda>_. Inr (JsJson (JBool False))) = Inr (JsJson (JBool True))
     \<longleftrightarrow> getExists v = Inr (JsJson (JBool True))"
  by (cases "getExists v") (simp_all add: tryCatch_def)

text \<open>
  Claim C3. \<open>isEmailLogged\<close> never throws, whatever the message id and the network do;
  when the request fails (\<open>fetch\<close> rejects or the response is not 2xx) it returns
  \<open>false\<close>; and it returns \<open>true\<close> only when the backend answered 2xx with an object
  whose \<open>exists\<close> field is \<open>true\<close>.
\<close>

theorem isEmailLogged_false_on_failure:
  "(\<exists>v. isEmailLogged net cfg mid = Inr v)
   \<and> (requestFailed (net (checkRequest cfg mid)) \<longrightarrow>
        isEmailLogged net cfg mid = Inr (JsJson (JBool False)))
   \<and> (isEmailLogged net cfg mid = Inr (JsJson (JBool True)) \<longrightarrow>
        (\<exists>response props. net (checkRequest cfg mid) = Responded response \<and> ok response
           \<and> jsonBody response = Some (JObject props)
           \<and> map_of props ''exists'' = Some (JBool True)))"
proof (intro conjI impI)
  show "\<exists>v. isEmailLogged net cfg mid = Inr v"
    unfolding isEmailLogged_cases using getExists_caught
    by (simp split: fetch_outcome.splits option.splits)
  show "isEmailLogged net cfg mid = Inr (JsJson (JBool False))"
    if "requestFailed (net (checkRequest cfg mid))"
    using that unfolding isEmailLogged_cases
    by (simp add: requestFailed_def split: fetch_outcome.splits)
  show "\<exists>response props. net (checkRequest cfg mid) = Responded response \<and> ok response
           \<and> jsonBody response = Some (JObject props)
           \<and> map_of props ''exists'' = Some (JBool True)"
    if "isEmailLogged net cfg mid = Inr (JsJson (JBool True))"
    using that unfolding isEmailLogged_cases
    by (auto simp: getExists_caught_True getExists_True split: fetch_outcome.splits option.splits if_splits)
qed

theorem isEmailLogged_false_on_failure_witness:
  "requestFailed (offline (checkRequest localApi ''m1''))
   \<and> isEmailLogged offline localApi ''m1'' = Inr (JsJson (JBool False))
   \<and> requestFailed (answering 500 JNull (checkRequest localApi ''m1''))
   \<and> isEmailLogged (answering 500 JNull) localApi ''m1'' = Inr (JsJson (JBool False))
   \<and> isEmailLogged (answering 200 (JObject [(''exists'', JBool True)])) localApi ''m1''
        = Inr (JsJson (JBool True))
   \<and> (\<exists>response props.
         answering 200 (JObject [(''exists'', JBool True)]) (checkRequest localApi ''m1'') = Responded response
         \<and> ok response \<and> jsonBody response = Some (JObject props)
         \<and> map_of props ''exists'' = Some (JBool True))"
proof -
  have h1: "requestFailed (offline (checkRequest localApi ''m1''))"
    by (simp add: requestFailed_def offline_def)
  have h2: "requestFailed (answering 500 JNull (checkRequest localApi ''m1''))"
    by (simp add: requestFailed_def answering_def ok_def)
  have h3: "isEmailLogged (answering 200 (JObject [(''exists'', JBool True)])) localApi ''m1''
        = Inr (JsJson (JBool True))"
    by (simp add: isEmailLogged_def apiRequest_def answering_def ok_def andThen_def tryCatch_def
        getExists_def)
  from isEmailLogged_false_on_failure[of offline localApi "''m1''"] h1
  have a: "isEmailLogged offline localApi ''m1'' = Inr (JsJson (JBool False))" by blast
  from isEmailLogged_false_on_failure[of "answering 500 JNull" localApi "''m1''"] h2
  have b: "isEmailLogged (answering 500 JNull) localApi ''m1'' = Inr (JsJson (JBool False))" by blast
  from isEmailLogged_false_on_failure[of "answering 200 (JObject [(''exists'', JBool True)])" localApi "''m1''"] h3
  have c: "\<exists>response props.
         answering 200 (JObject [(''exists'', JBool True)]) (checkRequest localApi ''m1'') = Responded response
         \<and> ok response \<and> jsonBody response = Some (JObject props)
         \<and> map_of props ''exists'' = Some (JBool True)" by blast
  from h1 a h2 b h3 c show ?thesis by blast
qed

text \<open>
  Claim C7. \<open>healthCheck\<close> never throws: for every configuration and every outcome of
  the GET request to \<open>/health\<close> it returns a boolean, \<open>true\<close> exactly when a response
  came with a status from 200 to 299, \<open>false\<close> for every other response and for a
  rejected request.
\<close>

theorem healthCheck_never_throws:
  "healthCheck net cfg =
     Inr (case net (healthRequest cfg) of
            Rejected e \<Rightarrow> False
          | Responded response \<Rightarrow> 200 \<le> status response \<and> status response \<le> 299)"
  by (simp add: healthCheck_def tryCatch_def ok_def split: fetch_outcome.splits)

section \<open>Claims about the auth manager\<close>

text \<open>
  Claim C4 says that every call of \<open>updateAuthState\<close> leaves \<open>isFullyAuthenticated\<close> true
  exactly when both tracks are not \<open>null\<close>. The code breaks this when a track is set to
  \<open>null\<close>: \<open>??\<close> falls back to the current track for \<open>null\<close> as it does for an absent
  field, so that after \<open>updateAuthState({bizdash: null})\<close> on a fully authenticated state the
  \<open>bizdash\<close> track is \<open>null\<close> and the flag is still \<open>true\<close>.
\<close>

theorem updateAuthState_null_keeps_flag:
  "updateAuthState (noUpdates\<lparr>bizdashUpd := Some None\<rparr>)
     \<lparr>google = Some g, bizdash = Some b, isFullyAuthenticated = True\<rparr>
   = \<lparr>google = Some g, bizdash = None, isFullyAuthenticated = True\<rparr>"
  by (simp add: updateAuthState_def noUpdates_def spreadField_def nullish_def)

text \<open>
  \<open>signOutBizDash\<close> makes that call. For updates that set no track to \<open>null\<close> the flag is
  recomputed as the claim says.
\<close>

lemma updateAuthState_invariant:
  assumes "googleUpd updates \<noteq> Some None" and "bizdashUpd updates \<noteq> Some None"
  shows "isFullyAuthenticated (updateAuthState updates st) \<longleftrightarrow>
           google (updateAuthState updates st) \<noteq> None \<and> bizdash (updateAuthState updates st) \<noteq> None"
  using assms
  by (auto simp: updateAuthState_def spreadField_def nullish_def split: option.splits)

lemma signOutBizDash_keeps_flag:
  assumes "currentAuthState w = \<lparr>google = Some g, bizdash = Some b, isFullyAuthenticated = True\<rparr>"
  shows "currentAuthState (snd (signOutBizDash None w))
           = \<lparr>google = Some g, bizdash = None, isFullyAuthenticated = True\<rparr>"
  using assms
  by (simp add: signOutBizDash_def removeFromStorage_def updateAuthState_def noUpdates_def
      spreadField_def nullish_def)

lemma verifyBizDash_failed:
  "requestFailed (net (probeRequest url)) \<Longrightarrow> verifyBizDash net url = Inl (Error (cannotConnect url))"
  by (cases "net (probeRequest url)") (simp_all add: verifyBizDash_def requestFailed_def tryCatch_def)

lemma verifyBizDash_ok:
  "\<not> requestFailed (net (probeRequest url)) \<Longrightarrow> verifyBizDash net url = Inr ()"
  by (cases "net (probeRequest url)") (simp_all add: verifyBizDash_def requestFailed_def tryCatch_def)

text \<open>
  Claim C6. When the reachability probe of \<open>url/health\<close> fails (\<open>fetch\<close> rejects or the
  response is not 2xx), \<open>authenticateBizDash\<close> throws an \<open>Error\<close> with the message
  \<open>Cannot connect to BizDash at url. Is the server running?\<close> and changes nothing: the
  auth state, the client configuration and the storage are as before, so a \<open>bizdash\<close>
  track that was \<open>null\<close> stays \<open>null\<close>.
\<close>

theorem authenticateBizDash_unreachable:
  assumes "requestFailed (net (probeRequest url))"
  shows "authenticateBizDash net lastError url key w =
           (Inl (Error (''Cannot connect to BizDash at '' @ url @ ''. Is the server running?'')), w)"
  using verifyBizDash_failed[of net url] assms
  by (simp add: authenticateBizDash_def cannotConnect_def)

theorem authenticateBizDash_unreachable_witness:
  "requestFailed (offline (probeRequest ''http://crm.test''))
   \<and> authenticateBizDash offline None ''http://crm.test'' None initialWorld =
        (Inl (Error ''Cannot connect to BizDash at http://crm.test. Is the server running?''), initialWorld)
   \<and> requestFailed (answering 503 JNull (probeRequest ''http://crm.test''))
   \<and> authenticateBizDash (answering 503 JNull) None ''http://crm.test'' None initialWorld =
        (Inl (Error ''Cannot connect to BizDash at http://crm.test. Is the server running?''), initialWorld)
   \<and> bizdash (currentAuthState initialWorld) = None
   \<and> localStorage initialWorld = Map.empty"
proof -
  have h1: "requestFailed (offline (probeRequest ''http://crm.test''))"
    by (simp add: requestFailed_def offline_def)
  have h2: "requestFailed (answering 503 JNull (probeRequest ''http://crm.test''))"
    by (simp add: requestFailed_def answering_def ok_def)
  from authenticateBizDash_unreachable[of offline "''http://crm.test''" None None initialWorld]
       authenticateBizDash_unreachable[of "answering 503 JNull" "''http://crm.test''" None None initialWorld]
       h1 h2
  show ?thesis by (simp add: initialWorld_def)
qed

text \<open>With a reachable server and a working store the same call does authenticate.\<close>

lemma authenticateBizDash_reachable:
  assumes "\<not> requestFailed (net (probeRequest url))"
  shows "\<exists>auth w'. authenticateBizDash net None url key w = (Inr auth, w')
           \<and> bizdash (currentAuthState w') = Some auth \<and> apiUrl auth = url
           \<and> localStorage w' BIZDASH_AUTH = Some (StoredBizDashAuth auth)"
  using verifyBizDash_ok[of net url] assms
  by (simp add: authenticateBizDash_def saveToStorage_def Let_def updateAuthState_def
      spreadField_def noUpdates_def)

section \<open>Claims about the settings store\<close>

text \<open>
  Claim C5. \<open>updateSettings\<close> with the payload \<open>{showNotifications: false}\<close> on stored
  settings \<open>s\<close> stores and returns \<open>s\<close> with only \<open>showNotifications\<close> changed; and for
  every payload and every store, each field absent from the payload keeps the value it
  had (the stored one, or the default when nothing was stored), and what is stored is
  what is returned.
\<close>

theorem updateSettings_preserves_absent:
  "updateSettings
     \<lparr>bizdashApiUrlUpd = None, captureEmailBodyUpd = None, autoMatchContactsUpd = None,
      showNotificationsUpd = Some False\<rparr> (Some s)
     = (s\<lparr>showNotifications := False\<rparr>, Some (s\<lparr>showNotifications := False\<rparr>))
   \<and> (bizdashApiUrlUpd updates = None \<longrightarrow>
        bizdashApiUrl (fst (updateSettings updates syncStore)) = bizdashApiUrl (getSettings syncStore))
   \<and> (captureEmailBodyUpd updates = None \<longrightarrow>
        captureEmailBody (fst (updateSettings updates syncStore)) = captureEmailBody (getSettings syncStore))
   \<and> (autoMatchContactsUpd updates = None \<longrightarrow>
        autoMatchContacts (fst (updateSettings updates syncStore)) = autoMatchContacts (getSettings syncStore))
   \<and> (showNotificationsUpd updates = None \<longrightarrow>
        showNotifications (fst (updateSettings updates syncStore)) = showNotifications (getSettings syncStore))
   \<and> snd (updateSettings updates syncStore) = Some (fst (updateSettings updates syncStore))"
  by (simp add: updateSettings_def getSettings_def spreadField_def Let_def)

theorem updateSettings_preserves_absent_witness:
  "showNotifications (fst (updateSettings
      \<lparr>bizdashApiUrlUpd = None, captureEmailBodyUpd = None, autoMatchContactsUpd = None,
       showNotificationsUpd = Some False\<rparr>
      (Some \<lparr>bizdashApiUrl = ''https://crm.test'', captureEmailBody = True,
             autoMatchContacts = False, showNotifications = True\<rparr>))) = False
   \<and> bizdashApiUrl (fst (updateSettings
      \<lparr>bizdashApiUrlUpd = None, captureEmailBodyUpd = None, autoMatchContactsUpd = None,
       showNotificationsUpd = Some False\<rparr>
      (Some \<lparr>bizdashApiUrl = ''https://crm.test'', captureEmailBody = True,
             autoMatchContacts = False, showNotifications = True\<rparr>))) = ''https://crm.test''
   \<and> captureEmailBody (fst (updateSettings
      \<lparr>bizdashApiUrlUpd = None, captureEmailBodyUpd = None, autoMatchContactsUpd = None,
       showNotificationsUpd = Some False\<rparr>
      (Some \<lparr>bizdashApiUrl = ''https://crm.test'', captureEmailBody = True,
             autoMatchContacts = False, showNotifications = True\<rparr>))) = True
   \<and> autoMatchContacts (fst (updateSettings
      \<lparr>bizdashApiUrlUpd = None, captureEmailBodyUpd = None, autoMatchContactsUpd = None,
       showNotificationsUpd = Some False\<rparr>
      (Some \<lparr>bizdashApiUrl = ''https://crm.test'', captureEmailBody = True,
             autoMatchContacts = False, showNotifications = True\<rparr>))) = False
   \<and> showNotifications (fst (updateSettings
      \<lparr>bizdashApiUrlUpd = Some ''https://other.test'', captureEmailBodyUpd = None, autoMatchContactsUpd = None,
       showNotificationsUpd = None\<rparr> None)) = True"
proof -
  let ?u = "\<lparr>bizdashApiUrlUpd = None, captureEmailBodyUpd = None, autoMatchContactsUpd = None,
       showNotificationsUpd = Some False\<rparr>"
  let ?s = "\<lparr>bizdashApiUrl = ''https://crm.test'', captureEmailBody = True,
             autoMatchContacts = False, showNotifications = True\<rparr>"
  let ?v = "\<lparr>bizdashApiUrlUpd = Some ''https://other.test'', captureEmailBodyUpd = None,
       autoMatchContactsUpd = None, showNotificationsUpd = None\<rparr>"
  from updateSettings_preserves_absent[of ?s ?u "Some ?s"]
       updateSettings_preserves_absent[of ?s ?v None]
  show ?thesis by (simp add: getSettings_def DEFAULT_SETTINGS_VALUE_def)
qed

section \<open>Claims about extraction from the page\<close>




end
